theory Spec2Isabelle
  imports Main
begin

section \<open>The elevator system: data model\<close>

text \<open>
  A shallow embedding of \<^verbatim>\<open>LLD examples/7.elevator_system.py\<close>. Python's unbounded
  integers are \<open>int\<close>, the two stop sets are \<open>int set\<close>, the objects are records and
  every method takes the object and returns the updated one. The lines a method prints
  are its only observable effect besides the state; they are returned as a list of
  events in front of the new state.
\<close>

datatype direction = UP | DOWN | IDLE

text \<open>\<^verbatim>\<open>ElevatorState\<close>; its member \<^verbatim>\<open>IDLE\<close> is written \<open>St_IDLE\<close> here, the name
  \<open>IDLE\<close> being the member of \<^verbatim>\<open>Direction\<close>.\<close>

datatype elevator_state = St_IDLE | MOVING | DOOR_OPEN | MAINTENANCE

record request =
  req_floor :: int
  req_direction :: direction

record elevator =
  elevator_id :: int
  current_floor :: int
  direction :: direction
  state :: elevator_state
  max_floor :: int
  up_stops :: "int set"
  down_stops :: "int set"
  capacity :: int
  current_load :: int

text \<open>One constructor for each line the code prints.\<close>

datatype event =
    MovingUp int int          \<comment> \<open>elevator id, the floor reached\<close>
  | MovingDown int int
  | Stopped int int           \<comment> \<open>"STOPPED at floor ... - Door OPEN"\<close>
  | DoorClosed int
  | RequestMsg int direction
  | Assigned int
  | NoElevator
  | DestinationMsg int int

datatype py_error = IndexError

section \<open>Elevator\<close>

definition Elevator :: "int \<Rightarrow> int \<Rightarrow> elevator" where
  "Elevator eid mf =
     \<lparr>elevator_id = eid, current_floor = 1, direction = IDLE, state = St_IDLE,
      max_floor = mf, up_stops = {}, down_stops = {}, capacity = 10, current_load = 0\<rparr>"

definition add_stop :: "elevator \<Rightarrow> int \<Rightarrow> elevator" where
  "add_stop e f =
     (if f < 1 \<or> f > max_floor e then e
      else if f > current_floor e then e\<lparr>up_stops := insert f (up_stops e)\<rparr>
      else if f < current_floor e then e\<lparr>down_stops := insert f (down_stops e)\<rparr>
      else e)"

definition should_stop :: "elevator \<Rightarrow> bool" where
  "should_stop e =
     (if direction e = UP \<and> current_floor e \<in> up_stops e then True
      else if direction e = DOWN \<and> current_floor e \<in> down_stops e then True
      else False)"

definition close_door :: "elevator \<Rightarrow> event list \<times> elevator" where
  "close_door e =
     (if state e = DOOR_OPEN then ([DoorClosed (elevator_id e)], e\<lparr>state := St_IDLE\<rparr>)
      else ([], e))"

definition stop :: "elevator \<Rightarrow> event list \<times> elevator" where
  "stop e =
     (let e1 = e\<lparr>state := DOOR_OPEN\<rparr>;
          out1 = [Stopped (elevator_id e1) (current_floor e1)];
          e2 = e1\<lparr>up_stops := up_stops e1 - {current_floor e1}\<rparr>;
          e3 = e2\<lparr>down_stops := down_stops e2 - {current_floor e2}\<rparr>;
          (out2, e4) = close_door e3
      in (out1 @ out2, e4))"

definition move :: "elevator \<Rightarrow> event list \<times> elevator" where
  "move e =
     (if state e = MAINTENANCE then ([], e)
      else if should_stop e then stop e
      else if up_stops e = {} \<and> down_stops e = {}
        then ([], e\<lparr>direction := IDLE, state := St_IDLE\<rparr>)
      else if up_stops e \<noteq> {} \<and> (down_stops e = {} \<or> direction e = UP)
        then ([MovingUp (elevator_id e) (current_floor e + 1)],
              e\<lparr>direction := UP, state := MOVING, current_floor := current_floor e + 1\<rparr>)
      else if down_stops e \<noteq> {}
        then ([MovingDown (elevator_id e) (current_floor e - 1)],
              e\<lparr>direction := DOWN, state := MOVING, current_floor := current_floor e - 1\<rparr>)
      else ([], e))"

definition is_available :: "elevator \<Rightarrow> bool" where
  "is_available e = (state e \<noteq> MAINTENANCE)"

definition get_distance :: "elevator \<Rightarrow> int \<Rightarrow> int" where
  "get_distance e f = \<bar>current_floor e - f\<bar>"

definition is_moving_towards :: "elevator \<Rightarrow> int \<Rightarrow> direction \<Rightarrow> bool" where
  "is_moving_towards e f d =
     (if direction e = IDLE then True
      else if direction e = d
        then (if d = UP then current_floor e < f else current_floor e > f)
      else False)"

section \<open>NearestCarScheduler\<close>

text \<open>\<^verbatim>\<open>min_distance\<close> starts as \<^verbatim>\<open>float('inf')\<close>: \<open>None\<close> stands for it, and every
  integer is below it.\<close>

fun below :: "int \<Rightarrow> int option \<Rightarrow> bool" where
  "below d None = True"
| "below d (Some m) = (d < m)"

text \<open>The score the loop compares: the distance, less 100 for a car moving towards the
  request.\<close>

definition score :: "elevator \<Rightarrow> request \<Rightarrow> int" where
  "score e r =
     (let distance = get_distance e (req_floor r)
      in if is_moving_towards e (req_floor r) (req_direction r) then distance - 100
         else distance)"

text \<open>The method returns one of the objects of the list it is given, which the caller
  then mutates; the model returns the position of that object in the list. The loop
  carries \<^verbatim>\<open>best_elevator\<close> and \<^verbatim>\<open>min_distance\<close>.\<close>

fun select_loop ::
  "(nat \<times> elevator) list \<Rightarrow> request \<Rightarrow> nat option \<Rightarrow> int option \<Rightarrow> nat option" where
  "select_loop [] r best_elevator min_distance = best_elevator"
| "select_loop ((i, e) # rest) r best_elevator min_distance =
     (let distance = score e r
      in if below distance min_distance then select_loop rest r (Some i) (Some distance)
         else select_loop rest r best_elevator min_distance)"

definition select_elevator :: "elevator list \<Rightarrow> request \<Rightarrow> nat option" where
  "select_elevator elevators r =
     (let available = filter (\<lambda>(i, e). is_available e) (enumerate 0 elevators)
      in if available = [] then None else select_loop available r None None)"

section \<open>ElevatorController\<close>

record controller =
  elevators :: "elevator list"
  num_floors :: int

definition ElevatorController :: "int \<Rightarrow> int \<Rightarrow> controller" where
  "ElevatorController num_elevators nf =
     \<lparr>elevators = map (\<lambda>i. Elevator (int i + 1) nf) [0..<nat num_elevators],
      num_floors = nf\<rparr>"

definition request_elevator :: "controller \<Rightarrow> int \<Rightarrow> direction \<Rightarrow> event list \<times> controller" where
  "request_elevator c f d =
     (let r = \<lparr>req_floor = f, req_direction = d\<rparr>
      in case select_elevator (elevators c) r of
           Some i \<Rightarrow>
             ([RequestMsg f d, Assigned (elevator_id (elevators c ! i))],
              c\<lparr>elevators := (elevators c)[i := add_stop (elevators c ! i) f]\<rparr>)
         | None \<Rightarrow> ([RequestMsg f d, NoElevator], c))"

text \<open>The position that \<^verbatim>\<open>xs[i]\<close> reads in Python: \<open>i\<close> itself from \<open>0\<close> up to
  the length, the length plus \<open>i\<close> for a negative \<open>i\<close> down to minus the length, and
  \<^verbatim>\<open>IndexError\<close> raised for any other \<open>i\<close>.\<close>

definition py_index :: "'a list \<Rightarrow> int \<Rightarrow> py_error + nat" where
  "py_index xs i =
     (if 0 \<le> i \<and> i < int (length xs) then Inr (nat i)
      else if i < 0 \<and> - int (length xs) \<le> i then Inr (nat (int (length xs) + i))
      else Inl IndexError)"

definition destination_request ::
  "controller \<Rightarrow> int \<Rightarrow> int \<Rightarrow> py_error + (event list \<times> controller)" where
  "destination_request c eid f =
     (case py_index (elevators c) (eid - 1) of
        Inl err \<Rightarrow> Inl err
      | Inr i \<Rightarrow>
          Inr ([DestinationMsg eid f],
               c\<lparr>elevators := (elevators c)[i := add_stop (elevators c ! i) f]\<rparr>))"

text \<open>The body of the loop of \<^verbatim>\<open>step\<close>, for one elevator, and the loop.\<close>

definition step_elevator :: "elevator \<Rightarrow> event list \<times> elevator" where
  "step_elevator e =
     (if up_stops e \<noteq> {} \<or> down_stops e \<noteq> {} then move e else ([], e))"

fun step_loop :: "elevator list \<Rightarrow> event list \<times> elevator list" where
  "step_loop [] = ([], [])"
| "step_loop (e # es) =
     (let (out1, e') = step_elevator e; (out2, es') = step_loop es
      in (out1 @ out2, e' # es'))"

definition step :: "controller \<Rightarrow> event list \<times> controller" where
  "step c = (let (out, es) = step_loop (elevators c) in (out, c\<lparr>elevators := es\<rparr>))"

text \<open>The test of \<^verbatim>\<open>run_simulation\<close> that ends the simulation.\<close>

definition all_idle :: "controller \<Rightarrow> bool" where
  "all_idle c = list_all (\<lambda>e. direction e = IDLE) (elevators c)"

section \<open>Sequences of operations\<close>

datatype op = RequestElevator int direction | DestinationRequest int int | Step

fun apply_op :: "controller \<Rightarrow> op \<Rightarrow> py_error + (event list \<times> controller)" where
  "apply_op c (RequestElevator f d) = Inr (request_elevator c f d)"
| "apply_op c (DestinationRequest eid f) = destination_request c eid f"
| "apply_op c Step = Inr (step c)"

text \<open>The controller after an operation; an operation that raises has changed nothing.\<close>

definition after :: "controller \<Rightarrow> op \<Rightarrow> controller" where
  "after c x = (case apply_op c x of Inl err \<Rightarrow> c | Inr (out, c') \<Rightarrow> c')"

fun run :: "controller \<Rightarrow> op list \<Rightarrow> controller" where
  "run c [] = c"
| "run c (x # xs) = run (after c x) xs"

text \<open>What the operations print, in order.\<close>

definition printed :: "controller \<Rightarrow> op \<Rightarrow> event list" where
  "printed c x = (case apply_op c x of Inl err \<Rightarrow> [] | Inr (out, c') \<Rightarrow> out)"

text \<open>Modelled from the spec: \<^verbatim>\<open>IsSettled()\<close> is not a method of the source (the nearest
  code is the test of \<^verbatim>\<open>run_simulation\<close>, \<open>all_idle\<close>); the spec defines it as: every
  car's direction is Idle and both of its stop sets are empty.\<close>

definition car_settled :: "elevator \<Rightarrow> bool" where
  "car_settled e = (direction e = IDLE \<and> up_stops e = {} \<and> down_stops e = {})"

definition is_settled :: "controller \<Rightarrow> bool" where
  "is_settled c = list_all car_settled (elevators c)"

section \<open>Iterated steps of one elevator\<close>

text \<open>\<open>moves n e\<close> is the elevator after \<open>n\<close> calls of \<^verbatim>\<open>move\<close>.\<close>

fun moves :: "nat \<Rightarrow> elevator \<Rightarrow> elevator" where
  "moves 0 e = e"
| "moves (Suc n) e = moves n (snd (move e))"

section \<open>Serving the stops of a car that has not moved yet\<close>

text \<open>\<open>ticks k e\<close> is the elevator after \<open>k\<close> steps of the controller.\<close>

fun ticks :: "nat \<Rightarrow> elevator \<Rightarrow> elevator" where
  "ticks 0 e = e"
| "ticks (Suc k) e = ticks k (snd (step_elevator e))"

text \<open>A car that only has stops at or above its floor needs at most \<open>remaining\<close> steps
  to serve them: two for each floor below the top one, a move and a stop, and one to stop
  where it is.\<close>

definition remaining :: "elevator \<Rightarrow> int" where
  "remaining e =
     2 * (max_floor e - current_floor e) + (if current_floor e \<in> up_stops e then 1 else 0)"

definition ascending :: "elevator \<Rightarrow> bool" where
  "ascending e \<longleftrightarrow>
     down_stops e = {} \<and> state e \<noteq> MAINTENANCE \<and>
     (\<forall>f\<in>up_stops e. current_floor e \<le> f \<and> f \<le> max_floor e) \<and>
     (current_floor e \<in> up_stops e \<longrightarrow> direction e = UP)"

text \<open>A car of a fresh controller of \<open>m\<close> floors after calls only: idle at floor 1, every
  stop above it.\<close>

definition waiting :: "int \<Rightarrow> elevator \<Rightarrow> bool" where
  "waiting m e \<longleftrightarrow>
     down_stops e = {} \<and> state e = St_IDLE \<and> current_floor e = 1 \<and> max_floor e = m \<and>
     (\<forall>f\<in>up_stops e. 1 < f \<and> f \<le> m)"

section \<open>The invariant of the cars of a controller\<close>

text \<open>A pending up stop is above the car, or at its floor while it is going up; a
  pending down stop is below it, or at its floor while it is going down. Between two
  operations a car is idle or moving; a car that has not moved yet is idle at floor 1,
  and a moving car has a stop pending.\<close>

definition car_inv :: "elevator \<Rightarrow> bool" where
  "car_inv e \<longleftrightarrow>
     (\<forall>f\<in>up_stops e. current_floor e < f \<or> (f = current_floor e \<and> direction e = UP)) \<and>
     (\<forall>f\<in>down_stops e. f < current_floor e \<or> (f = current_floor e \<and> direction e = DOWN)) \<and>
     (state e = St_IDLE \<or> state e = MOVING) \<and>
     (direction e = IDLE \<longrightarrow> state e = St_IDLE \<and> current_floor e = 1) \<and>
     (state e = MOVING \<longrightarrow> direction e \<noteq> IDLE \<and> (up_stops e \<noteq> {} \<or> down_stops e \<noteq> {}))"

section \<open>Basic facts\<close>

lemma stop_eq:
  "stop e = ([Stopped (elevator_id e) (current_floor e), DoorClosed (elevator_id e)],
             e\<lparr>state := St_IDLE, up_stops := up_stops e - {current_floor e},
               down_stops := down_stops e - {current_floor e}\<rparr>)"
  by (simp add: stop_def close_door_def Let_def)

lemma car_inv_Elevator: "car_inv (Elevator i m)"
  by (simp add: car_inv_def Elevator_def)

lemma car_inv_add_stop: "car_inv e \<Longrightarrow> car_inv (add_stop e f)"
  by (auto simp: car_inv_def add_stop_def)

lemma car_inv_step_elevator: "car_inv e \<Longrightarrow> car_inv (snd (step_elevator e))"
  unfolding step_elevator_def move_def stop_eq should_stop_def car_inv_def
  by (auto split: if_splits)

lemma snd_step_loop: "snd (step_loop es) = map (\<lambda>e. snd (step_elevator e)) es"
  by (induction es) (simp_all add: split_beta)

lemma fst_step_loop: "fst (step_loop es) = concat (map (\<lambda>e. fst (step_elevator e)) es)"
  by (induction es) (simp_all add: split_beta)

lemma elevators_step: "elevators (snd (step c)) = map (\<lambda>e. snd (step_elevator e)) (elevators c)"
  by (simp add: step_def split_beta snd_step_loop)

lemma elevator_id_add_stop: "elevator_id (add_stop e f) = elevator_id e"
  by (simp add: add_stop_def)

lemma elevator_id_step_elevator: "elevator_id (snd (step_elevator e)) = elevator_id e"
  by (simp add: step_elevator_def move_def stop_eq)

lemma select_loop_cases:
  "(select_loop xs r b md = b \<and> (\<forall>p\<in>set xs. \<not> below (score (snd p) r) md)) \<or>
   (\<exists>ys i e zs. xs = ys @ (i, e) # zs \<and> select_loop xs r b md = Some i \<and>
      below (score e r) md \<and>
      (\<forall>p\<in>set ys. score e r < score (snd p) r) \<and>
      (\<forall>p\<in>set zs. score e r \<le> score (snd p) r))"
proof (induction xs arbitrary: b md)
  case Nil
  show ?case by simp
next
  case (Cons p xs)
  obtain i e where p: "p = (i, e)" by (cases p)
  show ?case
  proof (cases "below (score e r) md")
    case True
    from Cons.IH [of "Some i" "Some (score e r)"]
    show ?thesis
    proof (elim disjE exE conjE)
      assume a: "select_loop xs r (Some i) (Some (score e r)) = Some i"
        and b: "\<forall>q\<in>set xs. \<not> below (score (snd q) r) (Some (score e r))"
      have "(p # xs) = [] @ (i, e) # xs \<and> select_loop (p # xs) r b md = Some i \<and>
          below (score e r) md \<and> (\<forall>q\<in>set []. score e r < score (snd q) r) \<and>
          (\<forall>q\<in>set xs. score e r \<le> score (snd q) r)"
        using a b True p by (auto simp: not_less)
      then show ?thesis by blast
    next
      fix ys j e' zs
      assume a: "xs = ys @ (j, e') # zs"
        "select_loop xs r (Some i) (Some (score e r)) = Some j"
        "below (score e' r) (Some (score e r))"
        "\<forall>q\<in>set ys. score e' r < score (snd q) r"
        "\<forall>q\<in>set zs. score e' r \<le> score (snd q) r"
      have lt: "score e' r < score e r" using a(3) by simp
      have bl: "below (score e' r) md" using True lt by (cases md) auto
      have "(p # xs) = (p # ys) @ (j, e') # zs \<and> select_loop (p # xs) r b md = Some j \<and>
          below (score e' r) md \<and> (\<forall>q\<in>set (p # ys). score e' r < score (snd q) r) \<and>
          (\<forall>q\<in>set zs. score e' r \<le> score (snd q) r)"
        using a True p lt bl by simp
      then show ?thesis by blast
    qed
  next
    case False
    then obtain m where md: "md = Some m" and ge: "m \<le> score e r" by (cases md) auto
    from Cons.IH [of b md]
    show ?thesis
    proof (elim disjE exE conjE)
      assume a: "select_loop xs r b md = b"
        and b: "\<forall>q\<in>set xs. \<not> below (score (snd q) r) md"
      then show ?thesis using False p by simp
    next
      fix ys j e' zs
      assume a: "xs = ys @ (j, e') # zs"
        "select_loop xs r b md = Some j"
        "below (score e' r) md"
        "\<forall>q\<in>set ys. score e' r < score (snd q) r"
        "\<forall>q\<in>set zs. score e' r \<le> score (snd q) r"
      have lt: "score e' r < score e r" using a(3) md ge by simp
      have "(p # xs) = (p # ys) @ (j, e') # zs \<and> select_loop (p # xs) r b md = Some j \<and>
          below (score e' r) md \<and> (\<forall>q\<in>set (p # ys). score e' r < score (snd q) r) \<and>
          (\<forall>q\<in>set zs. score e' r \<le> score (snd q) r)"
        using a False p lt by simp
      then show ?thesis by blast
    qed
  qed
qed

lemma available_sorted:
  "sorted_wrt (\<lambda>p q. fst p < fst q) (filter (\<lambda>(i, e). is_available e) (enumerate 0 es))"
proof -
  have "sorted_wrt (\<lambda>p q. fst p < fst q) (enumerate 0 es)"
    using sorted_wrt_map [of "(<)" fst "enumerate 0 es"] by simp
  then show ?thesis by (rule sorted_wrt_filter)
qed

lemma available_set:
  "(i, e) \<in> set (filter (\<lambda>(i, e). is_available e) (enumerate 0 es)) \<longleftrightarrow>
     i < length es \<and> e = es ! i \<and> is_available (es ! i)"
  by (auto simp: in_set_enumerate_eq)

lemma select_elevator_None:
  "select_elevator es r = None \<longleftrightarrow> (\<forall>e\<in>set es. \<not> is_available e)"
proof -
  let ?xs = "filter (\<lambda>(i, e). is_available e) (enumerate 0 es)"
  have "set ?xs = {} \<longleftrightarrow> (\<forall>e\<in>set es. \<not> is_available e)"
  proof
    assume a: "set ?xs = {}"
    show "\<forall>e\<in>set es. \<not> is_available e"
    proof
      fix e assume "e \<in> set es"
      then obtain i where i: "i < length es" "e = es ! i" by (auto simp: in_set_conv_nth)
      have "(i, e) \<notin> set ?xs" unfolding a by simp
      then show "\<not> is_available e" using i available_set [of i e es] by blast
    qed
  next
    assume a: "\<forall>e\<in>set es. \<not> is_available e"
    have "p \<notin> set ?xs" for p
    proof (cases p)
      case (Pair i e)
      show ?thesis unfolding Pair using a available_set [of i e es] nth_mem [of i es] by blast
    qed
    then show "set ?xs = {}" by (meson all_not_in_conv)
  qed
  then have empty: "?xs = [] \<longleftrightarrow> (\<forall>e\<in>set es. \<not> is_available e)"
    unfolding set_empty .
  show ?thesis
  proof (cases "?xs = []")
    case True
    then show ?thesis using empty by (simp add: select_elevator_def Let_def)
  next
    case False
    then obtain p where "p \<in> set ?xs" by (cases ?xs) auto
    then have "\<not> (\<forall>p\<in>set ?xs. \<not> below (score (snd p) r) None)" by auto
    with select_loop_cases [of ?xs r None None]
    have "select_loop ?xs r None None \<noteq> None" by auto
    then show ?thesis using False empty by (auto simp: select_elevator_def Let_def)
  qed
qed

lemma select_elevator_Some:
  assumes "select_elevator es r = Some i"
  shows "i < length es" and "is_available (es ! i)"
    and "\<And>j. j < length es \<Longrightarrow> is_available (es ! j) \<Longrightarrow> score (es ! i) r \<le> score (es ! j) r"
    and "\<And>j. j < i \<Longrightarrow> is_available (es ! j) \<Longrightarrow> score (es ! i) r < score (es ! j) r"
proof -
  let ?xs = "filter (\<lambda>(i, e). is_available e) (enumerate 0 es)"
  from assms have sel: "select_loop ?xs r None None = Some i"
    by (simp add: select_elevator_def Let_def split: if_splits)
  with select_loop_cases [of ?xs r None None]
  obtain ys e zs where xs: "?xs = ys @ (i, e) # zs"
    and ys: "\<forall>p\<in>set ys. score e r < score (snd p) r"
    and zs: "\<forall>p\<in>set zs. score e r \<le> score (snd p) r"
    by auto
  have "(i, e) \<in> set ?xs" by (simp add: xs)
  then have ie: "i < length es" "e = es ! i" "is_available (es ! i)"
    using available_set [of i e es] by blast+
  show "i < length es" "is_available (es ! i)" by (rule ie)+
  have srt: "sorted_wrt (\<lambda>p q. fst p < fst q) (ys @ (i, e) # zs)"
    using available_sorted [of es] by (simp add: xs)
  have after_i: "\<forall>p\<in>set zs. i < fst p"
    using srt by (auto simp: sorted_wrt_append)
  {
    fix j assume j: "j < length es" "is_available (es ! j)"
    then have "(j, es ! j) \<in> set ?xs" using available_set [of j "es ! j" es] by blast
    then have mem: "(j, es ! j) \<in> set ys \<or> j = i \<or> (j, es ! j) \<in> set zs"
      by (auto simp: xs)
    then show "score (es ! i) r \<le> score (es ! j) r"
      using ys zs ie(2) by force
    note mem
  } note mem = this
  {
    fix j assume j: "j < i" "is_available (es ! j)"
    then have "j < length es" using ie(1) by simp
    from mem [OF this j(2)] j(1) after_i have "(j, es ! j) \<in> set ys" by force
    then show "score (es ! i) r < score (es ! j) r" using ys ie(2) by force
  }
qed

lemma elevators_request_elevator:
  "elevators (snd (request_elevator c f d)) =
     (case select_elevator (elevators c) \<lparr>req_floor = f, req_direction = d\<rparr> of
        Some i \<Rightarrow> (elevators c)[i := add_stop (elevators c ! i) f]
      | None \<Rightarrow> elevators c)"
  by (simp add: request_elevator_def split: option.splits)

lemma py_index_Inr: "py_index xs k = Inr i \<Longrightarrow> i < length xs"
  by (auto simp: py_index_def split: if_splits)

lemma elevators_after_call:
  assumes "x \<noteq> Step"
  shows "elevators (after c x) = elevators c \<or>
   (\<exists>i f. i < length (elevators c) \<and>
      elevators (after c x) = (elevators c)[i := add_stop (elevators c ! i) f])"
proof (cases x)
  case (RequestElevator f d)
  show ?thesis
  proof (cases "select_elevator (elevators c) \<lparr>req_floor = f, req_direction = d\<rparr>")
    case None
    then show ?thesis using RequestElevator
      by (simp add: after_def request_elevator_def)
  next
    case (Some i)
    then have "i < length (elevators c)" by (rule select_elevator_Some(1))
    then show ?thesis using RequestElevator Some
      by (auto simp: after_def request_elevator_def)
  qed
next
  case (DestinationRequest eid f)
  show ?thesis
  proof (cases "py_index (elevators c) (eid - 1)")
    case (Inl err)
    then show ?thesis using DestinationRequest
      by (simp add: after_def destination_request_def)
  next
    case (Inr i)
    then have "i < length (elevators c)" by (rule py_index_Inr)
    then show ?thesis using DestinationRequest Inr
      by (auto simp: after_def destination_request_def)
  qed
next
  case Step
  then show ?thesis using assms by simp
qed

lemma elevators_after:
  "elevators (after c x) = elevators c \<or>
   (\<exists>i f. i < length (elevators c) \<and>
      elevators (after c x) = (elevators c)[i := add_stop (elevators c ! i) f]) \<or>
   elevators (after c x) = map (\<lambda>e. snd (step_elevator e)) (elevators c)"
proof (cases "x = Step")
  case True
  then show ?thesis by (simp add: after_def split_beta elevators_step)
next
  case False
  then show ?thesis using elevators_after_call [of x c] by blast
qed

lemma after_preserves:
  assumes add: "\<And>e f. P e \<Longrightarrow> P (add_stop e f)"
    and stp: "\<And>e. P e \<Longrightarrow> P (snd (step_elevator e))"
    and c: "\<forall>e\<in>set (elevators c). P e"
  shows "\<forall>e\<in>set (elevators (after c x)). P e"
  using elevators_after [of c x]
proof (elim disjE exE conjE)
  assume "elevators (after c x) = elevators c"
  then show ?thesis using c by simp
next
  fix i f
  assume i: "i < length (elevators c)"
    and eq: "elevators (after c x) = (elevators c)[i := add_stop (elevators c ! i) f]"
  have "P (add_stop (elevators c ! i) f)" using add c i by simp
  then show ?thesis using c eq set_update_subset_insert [of "elevators c" i] by auto
next
  assume "elevators (after c x) = map (\<lambda>e. snd (step_elevator e)) (elevators c)"
  then show ?thesis using c stp by simp
qed

lemma run_preserves:
  assumes add: "\<And>e f. P e \<Longrightarrow> P (add_stop e f)"
    and stp: "\<And>e. P e \<Longrightarrow> P (snd (step_elevator e))"
  shows "\<forall>e\<in>set (elevators c). P e \<Longrightarrow> \<forall>e\<in>set (elevators (run c xs)). P e"
proof (induction xs arbitrary: c)
  case Nil
  then show ?case by simp
next
  case (Cons x xs)
  have "\<forall>e\<in>set (elevators (after c x)). P e"
    using add stp Cons.prems by (rule after_preserves)
  then show ?case using Cons.IH by simp
qed

lemma car_inv_run:
  "\<forall>e\<in>set (elevators (run (ElevatorController n m) xs)). car_inv e"
proof (rule run_preserves)
  show "\<forall>e\<in>set (elevators (ElevatorController n m)). car_inv e"
    by (simp add: ElevatorController_def car_inv_Elevator)
qed (simp_all add: car_inv_add_stop car_inv_step_elevator)

lemma ids_after: "map elevator_id (elevators (after c x)) = map elevator_id (elevators c)"
  using elevators_after [of c x]
  by (auto simp: map_update elevator_id_add_stop elevator_id_step_elevator list_update_same_conv)

lemma ids_run: "map elevator_id (elevators (run c xs)) = map elevator_id (elevators c)"
  by (induction xs arbitrary: c) (simp_all add: ids_after)

lemma ids_ElevatorController:
  "map elevator_id (elevators (ElevatorController n m)) = map (\<lambda>i. int i + 1) [0..<nat n]"
  by (simp add: ElevatorController_def Elevator_def comp_def)

lemma id_run_nth:
  assumes "i < length (elevators (run (ElevatorController n m) xs))"
  shows "elevator_id (elevators (run (ElevatorController n m) xs) ! i) = int i + 1"
proof -
  let ?es = "elevators (run (ElevatorController n m) xs)"
  have eq: "map elevator_id ?es = map (\<lambda>i. int i + 1) [0..<nat n]"
    by (simp add: ids_run ids_ElevatorController)
  then have "length ?es = nat n" by (metis length_map length_upt minus_nat.diff_0)
  then have "map elevator_id ?es ! i = int i + 1" using assms by (simp add: eq)
  then show ?thesis using assms by simp
qed

section \<open>Evaluating a concrete scenario\<close>

text \<open>The equations that unfold the operations on a concrete controller.\<close>

lemmas ctrl_defs =
  after_def printed_def step_def step_elevator_def move_def should_stop_def stop_eq
  request_elevator_def select_elevator_def score_def get_distance_def
  is_moving_towards_def is_available_def enumerate_eq_zip
  destination_request_def py_index_def add_stop_def ElevatorController_def Elevator_def

lemma length_run: "length (elevators (run c xs)) = length (elevators c)"
  using ids_run [of c xs] by (metis length_map)

lemma state_run:
  "e \<in> set (elevators (run (ElevatorController n m) xs)) \<Longrightarrow>
   state e = St_IDLE \<or> state e = MOVING"
  using car_inv_run [of n m xs] by (simp add: car_inv_def)

section \<open>No car is ever out of service\<close>

text \<open>Claim C10. Whatever the fleet size \<open>n\<close>, the number of floors \<open>m\<close> and the
  sequence \<open>xs\<close> of hall calls, car calls and steps, no car of the controller is in
  state \<open>MAINTENANCE\<close>, so every car is available; and when the fleet is not empty,
  \<open>select_elevator\<close> returns a car for every request \<open>r\<close> and \<open>request_elevator\<close>
  never prints that no elevator is available.\<close>

theorem no_maintenance:
  "(\<forall>e\<in>set (elevators (run (ElevatorController n m) xs)).
      state e \<noteq> MAINTENANCE \<and> is_available e) \<and>
   (elevators (run (ElevatorController n m) xs) \<noteq> [] \<longrightarrow>
      select_elevator (elevators (run (ElevatorController n m) xs)) r \<noteq> None \<and>
      NoElevator \<notin> set (fst (request_elevator (run (ElevatorController n m) xs) f d)))"
proof -
  let ?c = "run (ElevatorController n m) xs"
  have av: "\<forall>e\<in>set (elevators ?c). state e \<noteq> MAINTENANCE \<and> is_available e"
    using state_run [of _ n m xs] by (fastforce simp: is_available_def)
  have sel: "select_elevator (elevators ?c) q \<noteq> None" if "elevators ?c \<noteq> []" for q
  proof -
    from that obtain e where "e \<in> set (elevators ?c)" by (cases "elevators ?c") auto
    then show ?thesis using av by (auto simp: select_elevator_None)
  qed
  have "NoElevator \<notin> set (fst (request_elevator ?c f d))" if "elevators ?c \<noteq> []"
    using sel [OF that, of "\<lparr>req_floor = f, req_direction = d\<rparr>"]
    by (auto simp: request_elevator_def)
  then show ?thesis using av sel by blast
qed

theorem no_maintenance_witness:
  "elevators (run (ElevatorController 1 10) [RequestElevator 5 UP, Step]) \<noteq> [] \<and>
   state (hd (elevators (run (ElevatorController 1 10) [RequestElevator 5 UP, Step]))) = MOVING \<and>
   is_available (hd (elevators (run (ElevatorController 1 10) [RequestElevator 5 UP, Step]))) \<and>
   select_elevator (elevators (run (ElevatorController 1 10) [RequestElevator 5 UP, Step]))
     \<lparr>req_floor = 7, req_direction = DOWN\<rparr> = Some 0 \<and>
   fst (request_elevator (run (ElevatorController 1 10) [RequestElevator 5 UP, Step]) 7 DOWN)
     = [RequestMsg 7 DOWN, Assigned 1]"
  using no_maintenance
    [of 1 10 "[RequestElevator 5 UP, Step]" "\<lparr>req_floor = 7, req_direction = DOWN\<rparr>" 7 DOWN]
  by (simp add: ctrl_defs)

section \<open>The two stop sets are disjoint\<close>

text \<open>Claim C4. For every car of a controller reached from a freshly constructed one by
  any sequence of hall calls, car calls (the two ways \<open>add_stop\<close> is called) and steps,
  no floor is in both \<open>up_stops\<close> and \<open>down_stops\<close>.\<close>

theorem stop_sets_disjoint:
  "\<forall>e\<in>set (elevators (run (ElevatorController n m) xs)). up_stops e \<inter> down_stops e = {}"
proof
  fix e assume "e \<in> set (elevators (run (ElevatorController n m) xs))"
  then have "car_inv e" using car_inv_run [of n m xs] by simp
  then have up: "\<forall>f\<in>up_stops e. current_floor e < f \<or> (f = current_floor e \<and> direction e = UP)"
    and down: "\<forall>f\<in>down_stops e. f < current_floor e \<or> (f = current_floor e \<and> direction e = DOWN)"
    by (simp_all add: car_inv_def)
  have "f \<notin> down_stops e" if "f \<in> up_stops e" for f
    using up down that by fastforce
  then show "up_stops e \<inter> down_stops e = {}" by blast
qed

theorem stop_sets_disjoint_witness:
  "up_stops (hd (elevators (run (ElevatorController 1 10)
      [DestinationRequest 1 5, Step, Step, DestinationRequest 1 2]))) = {5} \<and>
   down_stops (hd (elevators (run (ElevatorController 1 10)
      [DestinationRequest 1 5, Step, Step, DestinationRequest 1 2]))) = {2} \<and>
   up_stops (hd (elevators (run (ElevatorController 1 10)
      [DestinationRequest 1 5, Step, Step, DestinationRequest 1 2]))) \<inter>
   down_stops (hd (elevators (run (ElevatorController 1 10)
      [DestinationRequest 1 5, Step, Step, DestinationRequest 1 2]))) = {}"
  using stop_sets_disjoint [of 1 10 "[DestinationRequest 1 5, Step, Step, DestinationRequest 1 2]"]
  by (simp add: ctrl_defs)

section \<open>The scheduler selects the first car of minimal score\<close>

text \<open>Claim C8, as stated, fails: given the two fresh cars with ids 2 and 1, in this
  order, both available and of equal score for the hall call \<open>(5, UP)\<close>,
  \<open>select_elevator\<close> returns the car at position 0, whose id is 2, not the car of lowest
  id: the loop keeps the first car of strictly smaller score.\<close>

theorem tie_by_id_counterexample:
  "select_elevator [Elevator 2 10, Elevator 1 10] \<lparr>req_floor = 5, req_direction = UP\<rparr> = Some 0 \<and>
   is_available ([Elevator 2 10, Elevator 1 10] ! 1) \<and>
   score ([Elevator 2 10, Elevator 1 10] ! 1) \<lparr>req_floor = 5, req_direction = UP\<rparr>
     = score ([Elevator 2 10, Elevator 1 10] ! 0) \<lparr>req_floor = 5, req_direction = UP\<rparr> \<and>
   elevator_id ([Elevator 2 10, Elevator 1 10] ! 1) < elevator_id ([Elevator 2 10, Elevator 1 10] ! 0)"
  by (simp add: ctrl_defs)

text \<open>Claim C8, amended. For every list \<open>es\<close> of cars and every request \<open>r\<close>,
  \<open>select_elevator\<close> returns no car exactly when no car of the list is available;
  otherwise it returns the position of an available car whose score is minimal among
  the available cars of the list and, among those of that score, the earliest in the
  list. The score of a car is its distance to the floor of the request, less 100 when
  \<open>is_moving_towards\<close> holds, that is when the direction of the car is \<open>IDLE\<close>, or is the
  direction of the request with the floor of the request ahead of the car. In the fleet
  of every controller reached from a freshly constructed one the ids ascend with the
  position, so there the selected car has the lowest id among the cars of its score.
  In the scenario of two cars, car 1 moving up at floor 3 on its way to floor 8 and
  car 2 idle at floor 1, the hall call \<open>(4, UP)\<close> selects car 1.\<close>

theorem select_elevator_first_minimum:
  "(select_elevator es r = None \<longleftrightarrow> (\<forall>e\<in>set es. \<not> is_available e)) \<and>
   (\<forall>i. select_elevator es r = Some i \<longrightarrow>
      i < length es \<and> is_available (es ! i) \<and>
      (\<forall>j<length es. is_available (es ! j) \<longrightarrow>
         score (es ! i) r \<le> score (es ! j) r \<and>
         (score (es ! j) r = score (es ! i) r \<longrightarrow> i \<le> j))) \<and>
   score e r =
     \<bar>current_floor e - req_floor r\<bar> -
     (if direction e = IDLE \<or>
         (direction e = req_direction r \<and>
          (if req_direction r = UP then current_floor e < req_floor r
           else req_floor r < current_floor e))
      then 100 else 0) \<and>
   score e r = (if is_moving_towards e (req_floor r) (req_direction r)
                then get_distance e (req_floor r) - 100 else get_distance e (req_floor r)) \<and>
   (\<forall>i. select_elevator (elevators (run (ElevatorController n m) xs)) r = Some i \<longrightarrow>
      (\<forall>j<length (elevators (run (ElevatorController n m) xs)).
         score (elevators (run (ElevatorController n m) xs) ! j) r
           = score (elevators (run (ElevatorController n m) xs) ! i) r \<longrightarrow>
         elevator_id (elevators (run (ElevatorController n m) xs) ! i)
           \<le> elevator_id (elevators (run (ElevatorController n m) xs) ! j))) \<and>
   map (\<lambda>e. (elevator_id e, current_floor e, direction e, state e, up_stops e))
       (elevators (run (ElevatorController 2 10) [RequestElevator 8 UP, Step, Step]))
     = [(1, 3, UP, MOVING, {8}), (2, 1, IDLE, St_IDLE, {})] \<and>
   select_elevator (elevators (run (ElevatorController 2 10) [RequestElevator 8 UP, Step, Step]))
       \<lparr>req_floor = 4, req_direction = UP\<rparr> = Some 0 \<and>
   fst (request_elevator (run (ElevatorController 2 10) [RequestElevator 8 UP, Step, Step]) 4 UP)
     = [RequestMsg 4 UP, Assigned 1]"
proof -
  have first: "i < length es \<and> is_available (es ! i) \<and>
      (\<forall>j<length es. is_available (es ! j) \<longrightarrow>
         score (es ! i) r \<le> score (es ! j) r \<and>
         (score (es ! j) r = score (es ! i) r \<longrightarrow> i \<le> j))"
    if sel: "select_elevator es r = Some i" for es i
  proof -
    note s = select_elevator_Some [OF sel]
    have "score (es ! i) r \<le> score (es ! j) r \<and> (score (es ! j) r = score (es ! i) r \<longrightarrow> i \<le> j)"
      if j: "j < length es" "is_available (es ! j)" for j
    proof
      show "score (es ! i) r \<le> score (es ! j) r" using s(3) j by simp
      show "score (es ! j) r = score (es ! i) r \<longrightarrow> i \<le> j"
      proof
        assume eq: "score (es ! j) r = score (es ! i) r"
        have "\<not> j < i" using s(4) [of j] j(2) eq by force
        then show "i \<le> j" by simp
      qed
    qed
    then show ?thesis using s(1,2) by simp
  qed
  let ?fleet = "elevators (run (ElevatorController n m) xs)"
  have ids: "elevator_id (?fleet ! i) \<le> elevator_id (?fleet ! j)"
    if sel: "select_elevator ?fleet r = Some i" and j: "j < length ?fleet"
      and eq: "score (?fleet ! j) r = score (?fleet ! i) r" for i j
  proof -
    have "is_available (?fleet ! j)"
      using state_run [of "?fleet ! j" n m xs] j by (auto simp: is_available_def)
    then have "i \<le> j" using first [OF sel] j eq by simp
    moreover have "i < length ?fleet" using first [OF sel] by simp
    ultimately show ?thesis
      using id_run_nth [of i n m xs] id_run_nth [of j n m xs] j by simp
  qed
  have sc: "score e r =
     \<bar>current_floor e - req_floor r\<bar> -
     (if direction e = IDLE \<or>
         (direction e = req_direction r \<and>
          (if req_direction r = UP then current_floor e < req_floor r
           else req_floor r < current_floor e))
      then 100 else 0)"
    by (simp add: score_def get_distance_def is_moving_towards_def)
  have sc': "score e r = (if is_moving_towards e (req_floor r) (req_direction r)
                then get_distance e (req_floor r) - 100 else get_distance e (req_floor r))"
    by (simp add: score_def)
  have s1: "map (\<lambda>e. (elevator_id e, current_floor e, direction e, state e, up_stops e))
       (elevators (run (ElevatorController 2 10) [RequestElevator 8 UP, Step, Step]))
     = [(1, 3, UP, MOVING, {8}), (2, 1, IDLE, St_IDLE, {})]"
    by (simp add: ctrl_defs upt_rec)
  have s2: "select_elevator (elevators (run (ElevatorController 2 10) [RequestElevator 8 UP, Step, Step]))
       \<lparr>req_floor = 4, req_direction = UP\<rparr> = Some 0"
    by (simp add: ctrl_defs upt_rec)
  have s3: "fst (request_elevator (run (ElevatorController 2 10) [RequestElevator 8 UP, Step, Step]) 4 UP)
     = [RequestMsg 4 UP, Assigned 1]"
    by (simp add: ctrl_defs upt_rec)
  show ?thesis
    using select_elevator_None [of es r] first [of es] ids sc sc' s1 s2 s3 by blast
qed

theorem select_elevator_first_minimum_witness:
  "select_elevator
     [(Elevator 3 10)\<lparr>current_floor := 6, state := MAINTENANCE\<rparr>,
      (Elevator 2 10)\<lparr>current_floor := 5, direction := DOWN, state := MOVING, down_stops := {2}\<rparr>,
      (Elevator 1 10)\<lparr>current_floor := 9\<rparr>,
      (Elevator 4 10)\<lparr>current_floor := 3\<rparr>]
     \<lparr>req_floor = 6, req_direction = UP\<rparr> = Some 2 \<and>
   score ((Elevator 3 10)\<lparr>current_floor := 6, state := MAINTENANCE\<rparr>)
     \<lparr>req_floor = 6, req_direction = UP\<rparr> = - 100 \<and>
   score ((Elevator 2 10)\<lparr>current_floor := 5, direction := DOWN, state := MOVING, down_stops := {2}\<rparr>)
     \<lparr>req_floor = 6, req_direction = UP\<rparr> = 1 \<and>
   score ((Elevator 1 10)\<lparr>current_floor := 9\<rparr>) \<lparr>req_floor = 6, req_direction = UP\<rparr> = - 97 \<and>
   score ((Elevator 4 10)\<lparr>current_floor := 3\<rparr>) \<lparr>req_floor = 6, req_direction = UP\<rparr> = - 97 \<and>
   select_elevator (elevators (run (ElevatorController 2 10) []))
     \<lparr>req_floor = 5, req_direction = UP\<rparr> = Some 0 \<and>
   elevator_id (elevators (run (ElevatorController 2 10) []) ! 0) = 1"
  using select_elevator_first_minimum
    [of "[(Elevator 3 10)\<lparr>current_floor := 6, state := MAINTENANCE\<rparr>,
      (Elevator 2 10)\<lparr>current_floor := 5, direction := DOWN, state := MOVING, down_stops := {2}\<rparr>,
      (Elevator 1 10)\<lparr>current_floor := 9\<rparr>,
      (Elevator 4 10)\<lparr>current_floor := 3\<rparr>]"
     "\<lparr>req_floor = 6, req_direction = UP\<rparr>" "Elevator 1 10" 2 10 "[]"]
  by (simp add: ctrl_defs upt_rec)

section \<open>Direction idle and the stop sets\<close>

text \<open>Claim C3, as stated, fails: after the hall call \<open>(5, UP)\<close> on a fresh controller of
  one car, the car's direction is still \<open>IDLE\<close> while floor 5 is pending in \<open>up_stops\<close>
  (\<open>add_stop\<close> leaves the direction alone; the next step sets it).\<close>

theorem idle_iff_counterexample:
  "\<not> (direction (hd (elevators (run (ElevatorController 1 10) [RequestElevator 5 UP]))) = IDLE \<longleftrightarrow>
      up_stops (hd (elevators (run (ElevatorController 1 10) [RequestElevator 5 UP]))) = {} \<and>
      down_stops (hd (elevators (run (ElevatorController 1 10) [RequestElevator 5 UP]))) = {} \<and>
      (state (hd (elevators (run (ElevatorController 1 10) [RequestElevator 5 UP]))) = St_IDLE \<or>
       state (hd (elevators (run (ElevatorController 1 10) [RequestElevator 5 UP]))) = MAINTENANCE))"
  by (simp add: ctrl_defs)

text \<open>Claim C3, amended: for every car of a controller reached from a freshly constructed
  one, a car whose direction is \<open>IDLE\<close> is in state \<open>St_IDLE\<close> or \<open>MAINTENANCE\<close>; its stop
  sets need not be empty.\<close>

theorem idle_direction_idle_state:
  "\<forall>e\<in>set (elevators (run (ElevatorController n m) xs)).
     direction e = IDLE \<longrightarrow> state e = St_IDLE \<or> state e = MAINTENANCE"
  using car_inv_run [of n m xs] by (simp add: car_inv_def)

theorem idle_direction_idle_state_witness:
  "direction (hd (elevators (run (ElevatorController 1 10) [RequestElevator 5 UP]))) = IDLE \<and>
   state (hd (elevators (run (ElevatorController 1 10) [RequestElevator 5 UP]))) = St_IDLE \<and>
   up_stops (hd (elevators (run (ElevatorController 1 10) [RequestElevator 5 UP]))) = {5}"
  using idle_direction_idle_state [of 1 10 "[RequestElevator 5 UP]"]
  by (simp add: ctrl_defs)

section \<open>A car call with an id that names no car\<close>

text \<open>Claim C9 at the id 0, on a controller of one car (whose only id is 1): the lookup
  \<^verbatim>\<open>self.elevators[elevator_id - 1]\<close> reads position \<open>-1\<close>, the last car, so the call
  raises nothing and adds floor 5 to the stops of car 1. The id 2 raises
  \<^verbatim>\<open>IndexError\<close>.\<close>

theorem destination_request_id_zero:
  "0 \<notin> set (map elevator_id (elevators (ElevatorController 1 10))) \<and>
   destination_request (ElevatorController 1 10) 0 5 =
     Inr ([DestinationMsg 0 5],
          \<lparr>elevators = [(Elevator 1 10)\<lparr>up_stops := {5}\<rparr>], num_floors = 10\<rparr>) \<and>
   destination_request (ElevatorController 1 10) 2 5 = Inl IndexError"
  by (simp add: ctrl_defs)

section \<open>A stop requested at the floor of the car\<close>

text \<open>Claim C5, as stated, fails: with the only car idle at floor 3, the car call to
  floor 3 prints its request line only and leaves the controller as it was, and the next
  step prints nothing and changes nothing: no door is opened.\<close>

theorem add_stop_current_floor_counterexample:
  "map (\<lambda>e. (current_floor e, state e, up_stops e, down_stops e))
      (elevators (run (ElevatorController 1 10) [DestinationRequest 1 3, Step, Step, Step]))
     = [(3, St_IDLE, {}, {})] \<and>
   destination_request (run (ElevatorController 1 10) [DestinationRequest 1 3, Step, Step, Step]) 1 3
     = Inr ([DestinationMsg 1 3],
            run (ElevatorController 1 10) [DestinationRequest 1 3, Step, Step, Step]) \<and>
   step (run (ElevatorController 1 10) [DestinationRequest 1 3, Step, Step, Step, DestinationRequest 1 3])
     = ([], run (ElevatorController 1 10) [DestinationRequest 1 3, Step, Step, Step])"
  by (simp add: ctrl_defs)

text \<open>Claim C5, amended: \<open>add_stop\<close> with the current floor of the car returns the car
  unchanged, whatever its state, so the next step of the controller does for it what it
  would have done without the call.\<close>

theorem add_stop_current_floor:
  "add_stop e (current_floor e) = e \<and> step_elevator (add_stop e (current_floor e)) = step_elevator e"
  by (simp add: add_stop_def)

theorem add_stop_current_floor_witness:
  "add_stop ((Elevator 1 10)\<lparr>current_floor := 3, direction := UP\<rparr>) 3
     = (Elevator 1 10)\<lparr>current_floor := 3, direction := UP\<rparr> \<and>
   step_elevator (add_stop ((Elevator 1 10)\<lparr>current_floor := 3, direction := UP\<rparr>) 3)
     = ([], (Elevator 1 10)\<lparr>current_floor := 3, direction := UP\<rparr>)"
  using add_stop_current_floor [of "(Elevator 1 10)\<lparr>current_floor := 3, direction := UP\<rparr>"]
  by (simp add: Elevator_def step_elevator_def)

section \<open>An idle car with stops on both sides\<close>

text \<open>Claim C6, as stated, fails: a car that went to floor 3, became idle there (direction
  \<open>IDLE\<close>) and then got the stops 5 and 1 moves down to floor 2 on its next \<open>move\<close>.\<close>

theorem idle_both_counterexample:
  "direction (add_stop (add_stop (moves 4 (add_stop (Elevator 1 10) 3)) 5) 1) = IDLE \<and>
   current_floor (add_stop (add_stop (moves 4 (add_stop (Elevator 1 10) 3)) 5) 1) = 3 \<and>
   up_stops (add_stop (add_stop (moves 4 (add_stop (Elevator 1 10) 3)) 5) 1) = {5} \<and>
   down_stops (add_stop (add_stop (moves 4 (add_stop (Elevator 1 10) 3)) 5) 1) = {1} \<and>
   direction (snd (move (add_stop (add_stop (moves 4 (add_stop (Elevator 1 10) 3)) 5) 1))) = DOWN \<and>
   current_floor (snd (move (add_stop (add_stop (moves 4 (add_stop (Elevator 1 10) 3)) 5) 1))) = 2"
  by (simp add: ctrl_defs eval_nat_numeral)

text \<open>Claim C6, amended: for a car that is not in maintenance and whose two stop sets
  are both non-empty, \<open>move\<close> does the following. If the direction of the car is \<open>IDLE\<close>
  it moves down by one floor (direction \<open>DOWN\<close>, state \<open>MOVING\<close>). In general it stops
  when \<open>should_stop\<close> holds; otherwise it moves up by one floor when the direction is
  already \<open>UP\<close>, and down by one floor when it is not. So the car goes up a floor only
  if its direction was already \<open>UP\<close>.\<close>

theorem both_sets_direction:
  assumes "state e \<noteq> MAINTENANCE" and "up_stops e \<noteq> {}" and "down_stops e \<noteq> {}"
  shows "(direction e = IDLE \<longrightarrow>
            move e = ([MovingDown (elevator_id e) (current_floor e - 1)],
                      e\<lparr>direction := DOWN, state := MOVING,
                        current_floor := current_floor e - 1\<rparr>)) \<and>
         (should_stop e \<longrightarrow> move e = stop e) \<and>
         (\<not> should_stop e \<longrightarrow>
            move e =
              (if direction e = UP
               then ([MovingUp (elevator_id e) (current_floor e + 1)],
                     e\<lparr>direction := UP, state := MOVING,
                       current_floor := current_floor e + 1\<rparr>)
               else ([MovingDown (elevator_id e) (current_floor e - 1)],
                     e\<lparr>direction := DOWN, state := MOVING,
                       current_floor := current_floor e - 1\<rparr>))) \<and>
         (current_floor (snd (move e)) = current_floor e + 1 \<longrightarrow> direction e = UP)"
proof (intro conjI impI)
  assume "direction e = IDLE"
  then show "move e = ([MovingDown (elevator_id e) (current_floor e - 1)],
      e\<lparr>direction := DOWN, state := MOVING, current_floor := current_floor e - 1\<rparr>)"
    using assms by (simp add: move_def should_stop_def)
next
  assume "should_stop e"
  then show "move e = stop e" using assms(1) by (simp add: move_def)
next
  assume "\<not> should_stop e"
  then show "move e =
      (if direction e = UP
       then ([MovingUp (elevator_id e) (current_floor e + 1)],
             e\<lparr>direction := UP, state := MOVING, current_floor := current_floor e + 1\<rparr>)
       else ([MovingDown (elevator_id e) (current_floor e - 1)],
             e\<lparr>direction := DOWN, state := MOVING, current_floor := current_floor e - 1\<rparr>))"
    using assms by (simp add: move_def)
next
  assume up: "current_floor (snd (move e)) = current_floor e + 1"
  show "direction e = UP"
  proof (rule ccontr)
    assume "direction e \<noteq> UP"
    then have "current_floor (snd (move e)) = current_floor e \<or>
        current_floor (snd (move e)) = current_floor e - 1"
      using assms by (simp add: move_def stop_eq)
    then show False using up by simp
  qed
qed

theorem both_sets_direction_witness:
  "move (add_stop (add_stop (moves 4 (add_stop (Elevator 1 10) 3)) 5) 1) =
     ([MovingDown 1 2],
      \<lparr>elevator_id = 1, current_floor = 2, direction = DOWN, state = MOVING,
      max_floor = 10, up_stops = {5}, down_stops = {1}, capacity = 10, current_load = 0\<rparr>) \<and>
   move (add_stop (moves 1 (add_stop (Elevator 1 10) 5)) 1) =
     ([MovingUp 1 3],
      \<lparr>elevator_id = 1, current_floor = 3, direction = UP, state = MOVING,
      max_floor = 10, up_stops = {5}, down_stops = {1}, capacity = 10, current_load = 0\<rparr>) \<and>
   move (add_stop (moves 1 (add_stop (moves 5 (add_stop (Elevator 1 10) 5)) 2)) 8) =
     ([MovingDown 1 3],
      \<lparr>elevator_id = 1, current_floor = 3, direction = DOWN, state = MOVING,
      max_floor = 10, up_stops = {8}, down_stops = {2}, capacity = 10, current_load = 0\<rparr>)"
proof -
  let ?a = "add_stop (add_stop (moves 4 (add_stop (Elevator 1 10) 3)) 5) 1"
  let ?b = "add_stop (moves 1 (add_stop (Elevator 1 10) 5)) 1"
  let ?c = "add_stop (moves 1 (add_stop (moves 5 (add_stop (Elevator 1 10) 5)) 2)) 8"
  have a: "?a = \<lparr>elevator_id = 1, current_floor = 3, direction = IDLE, state = St_IDLE,
      max_floor = 10, up_stops = {5}, down_stops = {1}, capacity = 10, current_load = 0\<rparr>"
    by (simp add: ctrl_defs eval_nat_numeral)
  have b: "?b = \<lparr>elevator_id = 1, current_floor = 2, direction = UP, state = MOVING,
      max_floor = 10, up_stops = {5}, down_stops = {1}, capacity = 10, current_load = 0\<rparr>"
    by (simp add: ctrl_defs eval_nat_numeral)
  have c: "?c = \<lparr>elevator_id = 1, current_floor = 4, direction = DOWN, state = MOVING,
      max_floor = 10, up_stops = {8}, down_stops = {2}, capacity = 10, current_load = 0\<rparr>"
    by (simp add: ctrl_defs eval_nat_numeral)
  have ha: "state ?a \<noteq> MAINTENANCE" "up_stops ?a \<noteq> {}" "down_stops ?a \<noteq> {}"
    unfolding a by simp_all
  have hb: "state ?b \<noteq> MAINTENANCE" "up_stops ?b \<noteq> {}" "down_stops ?b \<noteq> {}"
    unfolding b by simp_all
  have hc: "state ?c \<noteq> MAINTENANCE" "up_stops ?c \<noteq> {}" "down_stops ?c \<noteq> {}"
    unfolding c by simp_all
  show ?thesis
    using both_sets_direction [OF ha] both_sets_direction [OF hb] both_sets_direction [OF hc]
    unfolding a b c by (simp add: should_stop_def)
qed

section \<open>No stop at a down stop while going up\<close>

lemma moves_Suc_right: "moves (Suc k) e = snd (move (moves k e))"
  by (induction k arbitrary: e) simp_all

lemma up_stops_move: "up_stops (snd (move e)) \<subseteq> up_stops e"
  by (auto simp: move_def stop_eq)

lemma up_stops_moves: "up_stops (moves k e) \<subseteq> up_stops e"
proof (induction k arbitrary: e)
  case 0
  show ?case by simp
next
  case (Suc k)
  have "up_stops (moves k (snd (move e))) \<subseteq> up_stops (snd (move e))" by (rule Suc.IH)
  then show ?case using up_stops_move [of e] by auto
qed

lemma elevator_id_move: "elevator_id (snd (move e)) = elevator_id e"
  by (simp add: move_def stop_eq)

lemma elevator_id_moves: "elevator_id (moves k e) = elevator_id e"
  by (induction k arbitrary: e) (simp_all add: elevator_id_move)

lemma Stopped_move:
  "Stopped i F \<in> set (fst (move e)) \<Longrightarrow> should_stop e \<and> current_floor e = F"
  by (auto simp: move_def stop_eq split: if_splits)

lemma down_stops_kept:
  "F \<in> down_stops e \<Longrightarrow> Stopped (elevator_id e) F \<notin> set (fst (move e)) \<Longrightarrow>
   F \<in> down_stops (snd (move e))"
  by (auto simp: move_def stop_eq split: if_splits)

lemma Stopped_only_down:
  assumes "F \<notin> up_stops e"
    and "Stopped (elevator_id e) F \<in> set (fst (move (moves k e)))"
  shows "direction (moves k e) = DOWN"
proof -
  have "should_stop (moves k e)" and "current_floor (moves k e) = F"
    using Stopped_move [OF assms(2)] by simp_all
  moreover have "F \<notin> up_stops (moves k e)"
    using assms(1) up_stops_moves [of k e] by auto
  ultimately show ?thesis by (auto simp: should_stop_def split: if_splits)
qed

lemma pending_until_stopped:
  assumes "F \<in> down_stops e"
    and "\<forall>k<j. Stopped (elevator_id e) F \<notin> set (fst (move (moves k e)))"
  shows "F \<in> down_stops (moves j e)"
proof -
  have "k \<le> j \<Longrightarrow> F \<in> down_stops (moves k e)" for k
  proof (induction k)
    case 0
    show ?case using assms(1) by simp
  next
    case (Suc k)
    then have "F \<in> down_stops (moves k e)" and "k < j" by simp_all
    moreover have "Stopped (elevator_id (moves k e)) F \<notin> set (fst (move (moves k e)))"
      using assms(2) \<open>k < j\<close> by (simp add: elevator_id_moves)
    ultimately show ?case
      unfolding moves_Suc_right by (simp add: down_stops_kept)
  qed
  then show ?thesis by simp
qed

text \<open>Claim C7. Let a car have direction \<open>UP\<close> and let floor \<open>F\<close> be in \<open>down_stops\<close> and not
  in \<open>up_stops\<close>. As long as the direction stays \<open>UP\<close> over the first \<open>n\<close> calls of
  \<open>move\<close>, none of them stops at \<open>F\<close> (prints the stop at \<open>F\<close>) and \<open>F\<close> is still pending
  in \<open>down_stops\<close>; any \<open>move\<close> that stops at \<open>F\<close> finds the car with direction \<open>DOWN\<close>; and
  once \<open>F\<close> has left \<open>down_stops\<close>, an earlier \<open>move\<close> has stopped at \<open>F\<close> with the car
  going down.\<close>

theorem no_stop_while_ascending:
  assumes "direction e = UP" and "F \<in> down_stops e" and "F \<notin> up_stops e"
  shows "((\<forall>k<n. direction (moves k e) = UP) \<longrightarrow>
            (\<forall>k<n. Stopped (elevator_id e) F \<notin> set (fst (move (moves k e)))) \<and>
            F \<in> down_stops (moves n e)) \<and>
         (Stopped (elevator_id e) F \<in> set (fst (move (moves j e))) \<longrightarrow>
            direction (moves j e) = DOWN) \<and>
         (F \<notin> down_stops (moves j e) \<longrightarrow>
            (\<exists>k<j. Stopped (elevator_id e) F \<in> set (fst (move (moves k e))) \<and>
                    direction (moves k e) = DOWN))"
proof (intro conjI impI)
  assume up: "\<forall>k<n. direction (moves k e) = UP"
  show no: "\<forall>k<n. Stopped (elevator_id e) F \<notin> set (fst (move (moves k e)))"
  proof (intro allI impI notI)
    fix k assume k: "k < n" and s: "Stopped (elevator_id e) F \<in> set (fst (move (moves k e)))"
    have "direction (moves k e) = DOWN" using assms(3) s by (rule Stopped_only_down)
    moreover have "direction (moves k e) = UP" using up k by simp
    ultimately show False by simp
  qed
  with assms(2) show "F \<in> down_stops (moves n e)" by (rule pending_until_stopped)
next
  assume "Stopped (elevator_id e) F \<in> set (fst (move (moves j e)))"
  with assms(3) show "direction (moves j e) = DOWN" by (rule Stopped_only_down)
next
  assume gone: "F \<notin> down_stops (moves j e)"
  have "\<not> (\<forall>k<j. Stopped (elevator_id e) F \<notin> set (fst (move (moves k e))))"
    using pending_until_stopped [OF assms(2), of j] gone by blast
  then obtain k where k: "k < j" "Stopped (elevator_id e) F \<in> set (fst (move (moves k e)))"
    by blast
  have "direction (moves k e) = DOWN" using assms(3) k(2) by (rule Stopped_only_down)
  with k show "\<exists>k<j. Stopped (elevator_id e) F \<in> set (fst (move (moves k e))) \<and>
                    direction (moves k e) = DOWN" by blast
qed

theorem no_stop_while_ascending_witness:
  "direction (add_stop (moves 2 (add_stop (Elevator 1 10) 5)) 2) = UP \<and>
   current_floor (add_stop (moves 2 (add_stop (Elevator 1 10) 5)) 2) = 3 \<and>
   up_stops (add_stop (moves 2 (add_stop (Elevator 1 10) 5)) 2) = {5} \<and>
   down_stops (add_stop (moves 2 (add_stop (Elevator 1 10) 5)) 2) = {2} \<and>
   direction (moves 3 (add_stop (moves 2 (add_stop (Elevator 1 10) 5)) 2)) = UP \<and>
   2 \<in> down_stops (moves 3 (add_stop (moves 2 (add_stop (Elevator 1 10) 5)) 2)) \<and>
   fst (move (moves 6 (add_stop (moves 2 (add_stop (Elevator 1 10) 5)) 2)))
     = [Stopped 1 2, DoorClosed 1] \<and>
   direction (moves 6 (add_stop (moves 2 (add_stop (Elevator 1 10) 5)) 2)) = DOWN"
proof -
  let ?e = "add_stop (moves 2 (add_stop (Elevator 1 10) 5)) 2"
  have e: "?e = \<lparr>elevator_id = 1, current_floor = 3, direction = UP, state = MOVING,
      max_floor = 10, up_stops = {5}, down_stops = {2}, capacity = 10, current_load = 0\<rparr>"
    by (simp add: ctrl_defs eval_nat_numeral)
  have h: "direction ?e = UP" "2 \<in> down_stops ?e" "2 \<notin> up_stops ?e"
    unfolding e by simp_all
  have ev: "fst (move (moves 6 ?e)) = [Stopped 1 2, DoorClosed 1]"
    unfolding e by (simp add: ctrl_defs eval_nat_numeral)
  have ups: "\<forall>k<3. direction (moves k ?e) = UP"
    unfolding e by (auto simp: ctrl_defs eval_nat_numeral less_Suc_eq)
  have "2 \<in> down_stops (moves 3 ?e)" "direction (moves 6 ?e) = DOWN"
    using no_stop_while_ascending [OF h, of 3 6] ups ev unfolding e by simp_all
  moreover have "direction (moves 3 ?e) = UP"
    unfolding e by (simp add: ctrl_defs eval_nat_numeral)
  ultimately show ?thesis using ev unfolding e by simp
qed

section \<open>The scenario of one car called to floors 5 and 10\<close>

text \<open>Claim C1, as stated, fails: after the hall call \<open>(5, UP)\<close>, the car call to floor 10
  and four steps, the car is at floor 5 but its state is not \<open>DOOR_OPEN\<close>.\<close>

theorem scenario_counterexample:
  "\<not> (current_floor (hd (elevators (run (ElevatorController 1 10)
          [RequestElevator 5 UP, DestinationRequest 1 10, Step, Step, Step, Step]))) = 5 \<and>
       state (hd (elevators (run (ElevatorController 1 10)
          [RequestElevator 5 UP, DestinationRequest 1 10, Step, Step, Step, Step]))) = DOOR_OPEN)"
  by (simp add: ctrl_defs)

text \<open>Claim C1, amended: after exactly 4 steps the car is at floor 5, \<open>MOVING\<close> up, with
  floors 5 and 10 pending; the 5th step stops there (the door opens and closes within
  the step), leaving the car in state \<open>St_IDLE\<close> at floor 5 with floor 10 pending; the
  6th step moves it to floor 6; after 9 steps it is at floor 9, after 10 steps at
  floor 10, \<open>MOVING\<close>; the 11th step stops at floor 10 and leaves both stop sets
  empty.\<close>

theorem scenario_trace:
  "printed (ElevatorController 1 10) (RequestElevator 5 UP) = [RequestMsg 5 UP, Assigned 1] \<and>
   elevators (run (ElevatorController 1 10)
       [RequestElevator 5 UP, DestinationRequest 1 10, Step, Step, Step, Step])
     = [(Elevator 1 10)\<lparr>current_floor := 5, direction := UP, state := MOVING, up_stops := {5, 10}\<rparr>] \<and>
   printed (run (ElevatorController 1 10)
       [RequestElevator 5 UP, DestinationRequest 1 10, Step, Step, Step, Step]) Step
     = [Stopped 1 5, DoorClosed 1] \<and>
   elevators (run (ElevatorController 1 10)
       [RequestElevator 5 UP, DestinationRequest 1 10, Step, Step, Step, Step, Step])
     = [(Elevator 1 10)\<lparr>current_floor := 5, direction := UP, state := St_IDLE, up_stops := {10}\<rparr>] \<and>
   elevators (run (ElevatorController 1 10)
       [RequestElevator 5 UP, DestinationRequest 1 10, Step, Step, Step, Step, Step, Step])
     = [(Elevator 1 10)\<lparr>current_floor := 6, direction := UP, state := MOVING, up_stops := {10}\<rparr>] \<and>
   elevators (run (ElevatorController 1 10)
       [RequestElevator 5 UP, DestinationRequest 1 10, Step, Step, Step, Step, Step, Step,
        Step, Step, Step])
     = [(Elevator 1 10)\<lparr>current_floor := 9, direction := UP, state := MOVING, up_stops := {10}\<rparr>] \<and>
   elevators (run (ElevatorController 1 10)
       [RequestElevator 5 UP, DestinationRequest 1 10, Step, Step, Step, Step, Step, Step,
        Step, Step, Step, Step])
     = [(Elevator 1 10)\<lparr>current_floor := 10, direction := UP, state := MOVING, up_stops := {10}\<rparr>] \<and>
   printed (run (ElevatorController 1 10)
       [RequestElevator 5 UP, DestinationRequest 1 10, Step, Step, Step, Step, Step, Step,
        Step, Step, Step, Step]) Step
     = [Stopped 1 10, DoorClosed 1] \<and>
   map (\<lambda>e. (current_floor e, state e, up_stops e, down_stops e))
     (elevators (run (ElevatorController 1 10)
       [RequestElevator 5 UP, DestinationRequest 1 10, Step, Step, Step, Step, Step, Step,
        Step, Step, Step, Step, Step]))
     = [(10, St_IDLE, {}, {})]"
  by (simp add: ctrl_defs insert_commute)

section \<open>Settlement\<close>

text \<open>A step never settles a car: it leaves a car without stops alone, and a car it moves
  or stops keeps a direction.\<close>

lemma car_settled_step_elevator:
  "\<not> car_settled e \<Longrightarrow> \<not> car_settled (snd (step_elevator e))"
  by (auto simp: car_settled_def step_elevator_def move_def stop_eq should_stop_def split: if_splits)

lemma is_settled_Step: "\<not> is_settled c \<Longrightarrow> \<not> is_settled (after c Step)"
  using car_settled_step_elevator
  by (auto simp: is_settled_def after_def split_beta elevators_step list_all_iff)

lemma is_settled_Steps: "\<not> is_settled c \<Longrightarrow> \<not> is_settled (run c (replicate k Step))"
  by (induction k arbitrary: c) (simp_all add: is_settled_Step)

lemma remaining_pos:
  assumes "ascending e" and "up_stops e \<noteq> {}"
  shows "1 \<le> remaining e"
proof -
  from assms(2) obtain f where f: "f \<in> up_stops e" by blast
  then have "current_floor e \<le> f" "f \<le> max_floor e" using assms(1) by (simp_all add: ascending_def)
  then show ?thesis using f by (cases "f = current_floor e") (auto simp: remaining_def)
qed

lemma step_elevator_idle:
  "up_stops e = {} \<Longrightarrow> down_stops e = {} \<Longrightarrow> step_elevator e = ([], e)"
  by (simp add: step_elevator_def)

lemma ascending_stop:
  assumes "ascending e" and "current_floor e \<in> up_stops e"
  shows "snd (step_elevator e) = e\<lparr>state := St_IDLE, up_stops := up_stops e - {current_floor e}\<rparr>"
  using assms by (auto simp: ascending_def step_elevator_def move_def should_stop_def stop_eq)

lemma ascending_move:
  assumes "ascending e" and "current_floor e \<notin> up_stops e" and "up_stops e \<noteq> {}"
  shows "snd (step_elevator e) =
           e\<lparr>direction := UP, state := MOVING, current_floor := current_floor e + 1\<rparr>"
  using assms by (auto simp: ascending_def step_elevator_def move_def should_stop_def)

lemma ascending_step:
  assumes "ascending e" and "up_stops e \<noteq> {}"
  shows "ascending (snd (step_elevator e))"
    and "remaining (snd (step_elevator e)) \<le> remaining e - 1"
proof -
  show "ascending (snd (step_elevator e))"
  proof (cases "current_floor e \<in> up_stops e")
    case True
    show ?thesis unfolding ascending_stop [OF assms(1) True]
      using assms(1) by (simp add: ascending_def)
  next
    case False
    have "current_floor e + 1 \<le> f" if "f \<in> up_stops e" for f
    proof -
      have "current_floor e \<le> f" using assms(1) that by (simp add: ascending_def)
      moreover have "f \<noteq> current_floor e" using False that by blast
      ultimately show ?thesis by simp
    qed
    then show ?thesis unfolding ascending_move [OF assms(1) False assms(2)]
      using assms(1) by (simp add: ascending_def)
  qed
  show "remaining (snd (step_elevator e)) \<le> remaining e - 1"
  proof (cases "current_floor e \<in> up_stops e")
    case True
    show ?thesis unfolding ascending_stop [OF assms(1) True]
      using True by (simp add: remaining_def)
  next
    case False
    show ?thesis unfolding ascending_move [OF assms(1) False assms(2)]
      using False by (simp add: remaining_def)
  qed
qed

lemma ascending_ticks:
  "ascending e \<Longrightarrow> up_stops e = {} \<or> remaining e \<le> int k \<Longrightarrow>
   up_stops (ticks k e) = {} \<and> down_stops (ticks k e) = {}"
proof (induction k arbitrary: e)
  case 0
  then have "up_stops e = {}" using remaining_pos [of e] by fastforce
  then show ?case using "0.prems"(1) by (simp add: ascending_def)
next
  case (Suc k)
  show ?case
  proof (cases "up_stops e = {}")
    case True
    then have "step_elevator e = ([], e)"
      using Suc.prems(1) by (simp add: step_elevator_idle ascending_def)
    then show ?thesis using Suc.IH [of e] Suc.prems(1) True by simp
  next
    case False
    then have "remaining e \<le> int (Suc k)" using Suc.prems(2) by simp
    then have "remaining (snd (step_elevator e)) \<le> int k"
      using ascending_step(2) [OF Suc.prems(1) False] by simp
    then show ?thesis
      using Suc.IH [of "snd (step_elevator e)"] ascending_step(1) [OF Suc.prems(1) False]
      by simp
  qed
qed

lemma run_Steps: "elevators (run c (replicate k Step)) = map (ticks k) (elevators c)"
proof (induction k arbitrary: c)
  case 0
  show ?case by simp
next
  case (Suc k)
  have "elevators (after c Step) = map (\<lambda>e. snd (step_elevator e)) (elevators c)"
    by (simp add: after_def split_beta elevators_step)
  then show ?case using Suc.IH [of "after c Step"] by simp
qed

lemma waiting_Elevator: "waiting m (Elevator i m)"
  by (simp add: waiting_def Elevator_def)

lemma waiting_add_stop: "waiting m e \<Longrightarrow> waiting m (add_stop e f)"
  by (auto simp: waiting_def add_stop_def)

lemma waiting_calls:
  "Step \<notin> set xs \<Longrightarrow> \<forall>e\<in>set (elevators c). waiting m e \<Longrightarrow>
   \<forall>e\<in>set (elevators (run c xs)). waiting m e"
proof (induction xs arbitrary: c)
  case Nil
  then show ?case by simp
next
  case (Cons x xs)
  have x: "x \<noteq> Step" and xs: "Step \<notin> set xs" using Cons.prems(1) by auto
  have "\<forall>e\<in>set (elevators (after c x)). waiting m e"
    using elevators_after_call [OF x, of c]
  proof (elim disjE exE conjE)
    assume "elevators (after c x) = elevators c"
    then show ?thesis using Cons.prems(2) by simp
  next
    fix i f
    assume i: "i < length (elevators c)"
      and eq: "elevators (after c x) = (elevators c)[i := add_stop (elevators c ! i) f]"
    have "waiting m (add_stop (elevators c ! i) f)"
      using Cons.prems(2) i by (simp add: waiting_add_stop)
    then show ?thesis
      using Cons.prems(2) eq set_update_subset_insert [of "elevators c" i] by auto
  qed
  then show ?case using Cons.IH [OF xs] by simp
qed

text \<open>From a fresh controller of \<open>m\<close> floors, after any hall calls and car calls,
  \<open>2 * m\<close> steps empty both stop sets of every car.\<close>

lemma stops_served_in_bound:
  assumes "Step \<notin> set xs"
  shows "\<forall>e\<in>set (elevators (run (run (ElevatorController n m) xs) (replicate (nat (2 * m)) Step))).
           up_stops e = {} \<and> down_stops e = {}"
proof -
  let ?c = "run (ElevatorController n m) xs"
  have w: "\<forall>e\<in>set (elevators ?c). waiting m e"
    using assms by (rule waiting_calls) (simp add: ElevatorController_def waiting_Elevator)
  have "up_stops (ticks (nat (2 * m)) e) = {} \<and> down_stops (ticks (nat (2 * m)) e) = {}"
    if "e \<in> set (elevators ?c)" for e
  proof -
    have we: "waiting m e" using w that by simp
    then have asc: "ascending e" by (auto simp: waiting_def ascending_def)
    have "up_stops e = {} \<or> remaining e \<le> int (nat (2 * m))"
    proof (cases "up_stops e = {}")
      case False
      then obtain f where "f \<in> up_stops e" by blast
      then have "1 < f" "f \<le> m" using we by (simp_all add: waiting_def)
      moreover have "remaining e = 2 * (m - 1)"
        using we by (auto simp: waiting_def remaining_def)
      ultimately show ?thesis by simp
    qed simp
    with asc show ?thesis by (rule ascending_ticks)
  qed
  then show ?thesis by (simp add: run_Steps)
qed

text \<open>Claim C2 at the controller of one car and two floors, after the car call to floor 2:
  however many steps follow, the controller is never settled. After two steps both stop
  sets are empty and the car is at floor 2, but its direction is \<open>UP\<close> and stays so: every
  further step leaves the controller as it is, and the test of \<^verbatim>\<open>run_simulation\<close> for all
  cars idle fails.\<close>

theorem never_settled:
  "(\<forall>k. \<not> is_settled (run (ElevatorController 1 2) (DestinationRequest 1 2 # replicate k Step))) \<and>
   map (\<lambda>e. (current_floor e, direction e, state e, up_stops e, down_stops e))
     (elevators (run (ElevatorController 1 2) [DestinationRequest 1 2, Step, Step]))
     = [(2, UP, St_IDLE, {}, {})] \<and>
   step (run (ElevatorController 1 2) [DestinationRequest 1 2, Step, Step])
     = ([], run (ElevatorController 1 2) [DestinationRequest 1 2, Step, Step]) \<and>
   \<not> all_idle (run (ElevatorController 1 2) [DestinationRequest 1 2, Step, Step])"
proof -
  have "\<not> is_settled (after (ElevatorController 1 2) (DestinationRequest 1 2))"
    by (simp add: ctrl_defs is_settled_def car_settled_def)
  then have "\<not> is_settled (run (ElevatorController 1 2) (DestinationRequest 1 2 # replicate k Step))" for k
    by (simp add: is_settled_Steps)
  moreover have "map (\<lambda>e. (current_floor e, direction e, state e, up_stops e, down_stops e))
     (elevators (run (ElevatorController 1 2) [DestinationRequest 1 2, Step, Step]))
     = [(2, UP, St_IDLE, {}, {})]"
    by (simp add: ctrl_defs)
  moreover have "step (run (ElevatorController 1 2) [DestinationRequest 1 2, Step, Step])
     = ([], run (ElevatorController 1 2) [DestinationRequest 1 2, Step, Step])"
    by (simp add: ctrl_defs)
  moreover have "\<not> all_idle (run (ElevatorController 1 2) [DestinationRequest 1 2, Step, Step])"
    by (simp add: ctrl_defs all_idle_def)
  ultimately show ?thesis by blast
qed

end
